theory Spec2Isabelle
  imports Main
begin

section \<open>The ring of the Go standard library\<close>

text \<open>
  Both queues keep their slots in a \<^verbatim>\<open>container/ring\<close> ring: every element is a heap
  cell with a \<^verbatim>\<open>next\<close> pointer, a \<^verbatim>\<open>prev\<close> pointer and a \<^verbatim>\<open>Value\<close> of interface
  type. The store is explicit: a cell is an address (a natural number), the three fields
  are functions on addresses, and \<open>ring_alloc\<close> is the first address never handed out.
  A \<^verbatim>\<open>nil\<close> \<^verbatim>\<open>Value\<close> is \<open>None\<close>.
\<close>

record 'v ring_heap =
  ring_next :: "nat \<Rightarrow> nat"
  ring_prev :: "nat \<Rightarrow> nat"
  ring_Value :: "nat \<Rightarrow> 'v option"
  ring_alloc :: nat

definition empty_heap :: "'v ring_heap" where
  "empty_heap = \<lparr>ring_next = (\<lambda>a. a), ring_prev = (\<lambda>a. a), ring_Value = (\<lambda>a. None), ring_alloc = 0\<rparr>"

text \<open>
  Modelled from the spec: \<^verbatim>\<open>ring.New\<close> of \<^verbatim>\<open>container/ring\<close> is not part of the repository.
  Section 4.1: a closed cycle of \<open>n\<close> empty slots for a positive \<open>n\<close>; the library returns
  \<^verbatim>\<open>nil\<close> for \<open>n \<le> 0\<close>. The cells are the next \<open>n\<close> fresh addresses, linked in order.
\<close>

definition ring_New :: "int \<Rightarrow> 'v ring_heap \<Rightarrow> nat option \<times> 'v ring_heap" where
  "ring_New n h =
     (if n \<le> 0 then (None, h)
      else
        (let b = ring_alloc h; k = nat n in
           (Some b,
            h\<lparr>ring_next := (\<lambda>a. if b \<le> a \<and> a < b + k
                                then (if Suc a = b + k then b else Suc a)
                                else ring_next h a),
              ring_prev := (\<lambda>a. if b \<le> a \<and> a < b + k
                                then (if a = b then b + k - 1 else a - 1)
                                else ring_prev h a),
              ring_Value := (\<lambda>a. if b \<le> a \<and> a < b + k then None else ring_Value h a),
              ring_alloc := b + k\<rparr>)))"

text \<open>
  Modelled from the spec: \<^verbatim>\<open>Ring.Link\<close> of \<^verbatim>\<open>container/ring\<close> is not part of the repository.
  Section 4.1 (splice): the successor of \<open>r\<close> becomes \<open>s\<close>, and the successor of the cell
  before \<open>s\<close> becomes the former successor of \<open>r\<close>; the \<^verbatim>\<open>prev\<close> pointers follow. Linking
  \<^verbatim>\<open>nil\<close> changes nothing.
\<close>

definition ring_Link :: "nat \<Rightarrow> nat option \<Rightarrow> 'v ring_heap \<Rightarrow> 'v ring_heap" where
  "ring_Link r s h =
     (case s of
        None \<Rightarrow> h
      | Some s' \<Rightarrow>
          (let n = ring_next h r; p = ring_prev h s' in
             h\<lparr>ring_next := (ring_next h)(r := s', p := n),
               ring_prev := (ring_prev h)(s' := r, n := p)\<rparr>))"

text \<open>
  Following \<^verbatim>\<open>Next()\<close> for \<open>k\<close> steps from a cell lists the cells visited, the start first.
\<close>

primrec ring_walk :: "(nat \<Rightarrow> nat) \<Rightarrow> nat \<Rightarrow> nat \<Rightarrow> nat list" where
  "ring_walk f 0 a = []"
| "ring_walk f (Suc k) a = a # ring_walk f k (f a)"

datatype error = Panic

section \<open>The growing queue (Cirque)\<close>

text \<open>
  The struct of the growing variant and its methods, under their names in the source
  (\<open>writeItem\<close> is \<^verbatim>\<open>write\<close>, \<open>min'\<close> is \<^verbatim>\<open>min\<close>). An item, a value of the type parameter
  \<^verbatim>\<open>T\<close>, is an \<open>'a option\<close>: \<open>None\<close> is the \<^verbatim>\<open>nil\<close> value of an interface type (\<^verbatim>\<open>any\<close>,
  \<^verbatim>\<open>error\<close>), \<open>Some v\<close> every other value; with a type parameter that is not an interface
  type all items are of the second kind. The mutex \<^verbatim>\<open>readMu\<close> is held by \<^verbatim>\<open>Dequeue\<close> and by
  \<^verbatim>\<open>grow\<close> for the length of the call and released on return; in a sequential run it is
  always free when requested, so it carries no state here. Go's \<^verbatim>\<open>int\<close> counters are
  modelled as unbounded integers: the capacity counts allocated cells, and \<open>2^63\<close> cells
  cannot be allocated.
\<close>

record 'a cirque =
  writeHead :: nat
  readHead :: nat
  len :: int
  cap :: int
  heap :: "'a ring_heap"

definition New :: "int \<Rightarrow> 'a cirque option" where
  "New n =
     (if n \<le> 0 then None
      else
        (case ring_New n empty_heap of
           (Some r, h) \<Rightarrow> Some \<lparr>writeHead = r, readHead = r, len = 0, cap = n, heap = h\<rparr>
         | (None, h) \<Rightarrow> None))"

definition Len :: "'a cirque \<Rightarrow> int" where
  "Len cq = len cq"

definition getReaderHead :: "'a cirque \<Rightarrow> nat" where
  "getReaderHead cq = readHead cq"

definition getWriterHead :: "'a cirque \<Rightarrow> nat" where
  "getWriterHead cq = writeHead cq"

definition moveWriterHeadForward :: "'a cirque \<Rightarrow> 'a cirque" where
  "moveWriterHeadForward cq = cq\<lparr>writeHead := ring_next (heap cq) (writeHead cq)\<rparr>"

definition moveReaderHeadForward :: "'a cirque \<Rightarrow> 'a cirque" where
  "moveReaderHeadForward cq = cq\<lparr>readHead := ring_next (heap cq) (readHead cq)\<rparr>"

text \<open>
  \<^verbatim>\<open>h.Value = item\<close>: the item is converted to the interface type of \<^verbatim>\<open>Value\<close>, and a
  \<^verbatim>\<open>nil\<close> item leaves a \<^verbatim>\<open>nil\<close> \<^verbatim>\<open>Value\<close>.
\<close>

definition writeItem :: "'a option \<Rightarrow> 'a cirque \<Rightarrow> 'a cirque" where
  "writeItem item cq =
     cq\<lparr>heap := (heap cq)\<lparr>ring_Value := (ring_Value (heap cq))(getWriterHead cq := item)\<rparr>\<rparr>"

text \<open>
  The type assertion \<^verbatim>\<open>Value.(T)\<close> of \<^verbatim>\<open>read\<close> panics on a \<^verbatim>\<open>nil\<close> \<^verbatim>\<open>Value\<close>, whatever
  \<^verbatim>\<open>T\<close> is, and returns every other value that was stored as a \<^verbatim>\<open>T\<close>.
\<close>

definition read :: "'a cirque \<Rightarrow> error + 'a option" where
  "read cq =
     (case ring_Value (heap cq) (getReaderHead cq) of None \<Rightarrow> Inl Panic | Some v \<Rightarrow> Inr (Some v))"

definition grow :: "int \<Rightarrow> 'a cirque \<Rightarrow> 'a cirque" where
  "grow min' cq =
     (if min' < 0 then cq
      else
        (let (newRing, h) = ring_New min' (heap cq);
             h' = ring_Link (writeHead cq) newRing h
         in cq\<lparr>heap := h', cap := cap cq + min'\<rparr>))"

text \<open>One iteration of the loop of \<^verbatim>\<open>Enqueue\<close>, in a call with the arguments \<open>elements\<close>.\<close>

definition enqueue_item :: "'a option list \<Rightarrow> 'a option \<Rightarrow> 'a cirque \<Rightarrow> 'a cirque" where
  "enqueue_item elements item cq =
     (let cq1 = (if ring_next (heap cq) (getWriterHead cq) = getReaderHead cq
                 then grow (cap cq + int (length elements)) cq
                 else cq);
          cq2 = writeItem item cq1;
          cq3 = cq2\<lparr>len := len cq2 + 1\<rparr>
      in moveWriterHeadForward cq3)"

definition Enqueue :: "'a option list \<Rightarrow> 'a cirque \<Rightarrow> 'a cirque" where
  "Enqueue elements cq = fold (enqueue_item elements) elements cq"

text \<open>
  The loop of \<^verbatim>\<open>Dequeue\<close>: \<open>i\<close> iterations are left, \<open>result\<close> is the slice collected so far.
  A panic of \<^verbatim>\<open>read\<close> ends the call; the slice collected in the call is lost with it.
\<close>

fun dequeue_loop ::
  "nat \<Rightarrow> 'a option list \<Rightarrow> 'a cirque \<Rightarrow> error + ('a option list \<times> 'a cirque)" where
  "dequeue_loop 0 result cq = Inr (result, cq)"
| "dequeue_loop (Suc i) result cq =
     (if getReaderHead cq = getWriterHead cq then Inr (result, cq)
      else
        (case read cq of
           Inl e \<Rightarrow> Inl e
         | Inr v \<Rightarrow> dequeue_loop i (result @ [v]) (moveReaderHeadForward (cq\<lparr>len := len cq - 1\<rparr>))))"

definition Dequeue :: "int \<Rightarrow> 'a cirque \<Rightarrow> error + ('a option list \<times> 'a cirque)" where
  "Dequeue n cq = (if n \<le> 0 then Inr ([], cq) else dequeue_loop (nat n) [] cq)"

text \<open>
  The cells of the ring in traversal order from the read cursor, and the cells the read
  cursor still has to pass before it meets the write cursor.
\<close>

definition ring_slots :: "'a cirque \<Rightarrow> nat list" where
  "ring_slots cq = ring_walk (ring_next (heap cq)) (nat (cap cq)) (readHead cq)"

definition unread_slots :: "'a cirque \<Rightarrow> nat list" where
  "unread_slots cq = takeWhile (\<lambda>a. a \<noteq> writeHead cq) (ring_slots cq)"

text \<open>
  Sequential use of the public operations: a list of calls, run in order; the results of
  the \<^verbatim>\<open>Dequeue\<close> calls are collected in order. A panic ends the run.
\<close>

datatype 'a call = CallEnqueue "'a option list" | CallDequeue int

fun run_calls ::
  "'a call list \<Rightarrow> 'a cirque \<Rightarrow> error + ('a option list list \<times> 'a cirque)" where
  "run_calls [] cq = Inr ([], cq)"
| "run_calls (CallEnqueue elements # cs) cq = run_calls cs (Enqueue elements cq)"
| "run_calls (CallDequeue n # cs) cq =
     (case Dequeue n cq of
        Inl e \<Rightarrow> Inl e
      | Inr (result, cq') \<Rightarrow>
          (case run_calls cs cq' of
             Inl e \<Rightarrow> Inl e
           | Inr (results, cq'') \<Rightarrow> Inr (result # results, cq'')))"

fun enqueued :: "'a call list \<Rightarrow> 'a option list" where
  "enqueued [] = []"
| "enqueued (CallEnqueue elements # cs) = elements @ enqueued cs"
| "enqueued (CallDequeue n # cs) = enqueued cs"

text \<open>
  The states of the growing queue that a sequential client can bring about: construction,
  then iterations of the loop of \<^verbatim>\<open>Enqueue\<close> (in a call whose arguments contain the item)
  and \<^verbatim>\<open>Dequeue\<close> calls that return.
\<close>

inductive reachable :: "'a cirque \<Rightarrow> bool" where
  reachable_New: "New n = Some cq \<Longrightarrow> reachable cq"
| reachable_enqueue_item:
    "reachable cq \<Longrightarrow> item \<in> set elements \<Longrightarrow> reachable (enqueue_item elements item cq)"
| reachable_Dequeue: "reachable cq \<Longrightarrow> Dequeue n cq = Inr (result, cq') \<Longrightarrow> reachable cq'"

section \<open>The blocking queue (RingBuffer)\<close>

text \<open>
  The struct of the blocking variant (\<^verbatim>\<open>ringbuffer.go\<close>; the older \<^verbatim>\<open>Cirque\<close> of the same
  shape has the same code); the methods that share a name with the growing variant's have
  the prefix \<open>rb\<close>. The channel \<^verbatim>\<open>updateCh\<close> is unbuffered and holds no data. A cell's
  \<^verbatim>\<open>Value\<close> is \<^verbatim>\<open>nil\<close> (\<open>None\<close>) or points to an \<^verbatim>\<open>atomic.Value\<close> that holds a value \<open>v\<close>
  with its dynamic type \<open>t\<close> (\<open>Some (t, v)\<close>); dynamic types are told apart by a number. An
  item is \<^verbatim>\<open>nil\<close> (\<open>None\<close>, for an interface type parameter) or a value with its dynamic
  type; with a type parameter that is not an interface type all items carry the same type.
\<close>

record 'a ringbuffer =
  rb_writeHead :: nat
  rb_readHead :: nat
  rb_heap :: "(nat \<times> 'a) ring_heap"

definition rb_New :: "int \<Rightarrow> 'a ringbuffer option" where
  "rb_New n =
     (if n \<le> 0 then None
      else
        (case ring_New n empty_heap of
           (Some r, h) \<Rightarrow> Some \<lparr>rb_writeHead = r, rb_readHead = r, rb_heap = h\<rparr>
         | (None, h) \<Rightarrow> None))"

definition rb_getReaderHead :: "'a ringbuffer \<Rightarrow> nat" where
  "rb_getReaderHead rb = rb_readHead rb"

definition rb_getWriterHead :: "'a ringbuffer \<Rightarrow> nat" where
  "rb_getWriterHead rb = rb_writeHead rb"

definition rb_moveWriterHeadForward :: "'a ringbuffer \<Rightarrow> 'a ringbuffer" where
  "rb_moveWriterHeadForward rb = rb\<lparr>rb_writeHead := ring_next (rb_heap rb) (rb_writeHead rb)\<rparr>"

text \<open>
  The pointer store of \<^verbatim>\<open>moveReaderHeadForward\<close>; the non-blocking send on the channel
  that follows it is a statement of its own, \<open>notify\<close> below.
\<close>

definition rb_moveReaderHeadForward :: "'a ringbuffer \<Rightarrow> 'a ringbuffer" where
  "rb_moveReaderHeadForward rb = rb\<lparr>rb_readHead := ring_next (rb_heap rb) (rb_readHead rb)\<rparr>"

text \<open>
  \<^verbatim>\<open>write\<close>: a \<^verbatim>\<open>nil\<close> \<^verbatim>\<open>Value\<close> gets a new \<^verbatim>\<open>atomic.Value\<close>, then \<^verbatim>\<open>Store(item)\<close>.
  \<^verbatim>\<open>Store\<close> panics on a \<^verbatim>\<open>nil\<close> item and on an item whose dynamic type is not the one
  of the value the \<^verbatim>\<open>atomic.Value\<close> already holds. A panic ends the run.
\<close>

definition rb_write :: "(nat \<times> 'a) option \<Rightarrow> 'a ringbuffer \<Rightarrow> error + 'a ringbuffer" where
  "rb_write item rb =
     (case item of
        None \<Rightarrow> Inl Panic
      | Some (t, v) \<Rightarrow>
          (case ring_Value (rb_heap rb) (rb_getWriterHead rb) of
             None \<Rightarrow>
               Inr (rb\<lparr>rb_heap := (rb_heap rb)\<lparr>ring_Value :=
                     (ring_Value (rb_heap rb))(rb_getWriterHead rb := Some (t, v))\<rparr>\<rparr>)
           | Some (t', v') \<Rightarrow>
               if t' = t
               then Inr (rb\<lparr>rb_heap := (rb_heap rb)\<lparr>ring_Value :=
                     (ring_Value (rb_heap rb))(rb_getWriterHead rb := Some (t, v))\<rparr>\<rparr>)
               else Inl Panic))"

text \<open>
  \<^verbatim>\<open>read\<close>: the assertion \<^verbatim>\<open>Value.(*atomic.Value)\<close> panics on a \<^verbatim>\<open>nil\<close> \<^verbatim>\<open>Value\<close>; a stored
  value is loaded and is of type \<^verbatim>\<open>T\<close>.
\<close>

definition rb_read :: "'a ringbuffer \<Rightarrow> error + (nat \<times> 'a) option" where
  "rb_read rb =
     (case ring_Value (rb_heap rb) (rb_getReaderHead rb) of
        None \<Rightarrow> Inl Panic
      | Some v \<Rightarrow> Inr (Some v))"

text \<open>
  Where the writer is in \<^verbatim>\<open>WriteOrWait\<close>: not in a call; at the head of the loop with the
  items left; past the test, which found the ring full, and not yet in the receive; blocked
  in the receive on \<^verbatim>\<open>updateCh\<close> for an item; before \<^verbatim>\<open>rb.write(item)\<close>; before
  \<^verbatim>\<open>rb.moveWriterHeadForward()\<close>.
\<close>

datatype 'a writer =
  Idle
| AtCheck "(nat \<times> 'a) option list"
| BeforeReceive "(nat \<times> 'a) option" "(nat \<times> 'a) option list"
| AtReceive "(nat \<times> 'a) option" "(nat \<times> 'a) option list"
| AtWrite "(nat \<times> 'a) option" "(nat \<times> 'a) option list"
| AtMove "(nat \<times> 'a) option list"

definition rb_full :: "'a ringbuffer \<Rightarrow> bool" where
  "rb_full rb \<longleftrightarrow> ring_next (rb_heap rb) (rb_getWriterHead rb) = rb_getReaderHead rb"

text \<open>
  \<^verbatim>\<open>WriteOrWait\<close> run with no reader at work: it returns (\<open>Idle\<close>), stops in the receive,
  where nothing will wake it, or panics.
\<close>

fun WriteOrWait ::
  "(nat \<times> 'a) option list \<Rightarrow> 'a ringbuffer \<Rightarrow> error + ('a writer \<times> 'a ringbuffer)" where
  "WriteOrWait [] rb = Inr (Idle, rb)"
| "WriteOrWait (item # rest) rb =
     (if rb_full rb then Inr (AtReceive item rest, rb)
      else
        (case rb_write item rb of
           Inl e \<Rightarrow> Inl e
         | Inr rb' \<Rightarrow> WriteOrWait rest (rb_moveWriterHeadForward rb')))"

fun read_loop ::
  "nat \<Rightarrow> (nat \<times> 'a) option list \<Rightarrow> 'a ringbuffer \<Rightarrow>
     error + ((nat \<times> 'a) option list \<times> 'a ringbuffer)" where
  "read_loop 0 result rb = Inr (result, rb)"
| "read_loop (Suc i) result rb =
     (if rb_getReaderHead rb = rb_getWriterHead rb then Inr (result, rb)
      else
        (case rb_read rb of
           Inl e \<Rightarrow> Inl e
         | Inr v \<Rightarrow> read_loop i (result @ [v]) (rb_moveReaderHeadForward rb)))"

text \<open>\<^verbatim>\<open>Read\<close> with no writer blocked in the receive: the sends find no receiver.\<close>

definition Read ::
  "int \<Rightarrow> 'a ringbuffer \<Rightarrow> error + ((nat \<times> 'a) option list \<times> 'a ringbuffer)" where
  "Read n rb = (if n \<le> 0 then Inr ([], rb) else read_loop (nat n) [] rb)"

text \<open>
  The writer and a reader together, each taking one step per statement that touches what
  they share. One step of the writer is one statement of the loop of \<^verbatim>\<open>WriteOrWait\<close>; a
  writer in the receive does not move by itself.
\<close>

fun writer_step :: "'a writer \<Rightarrow> 'a ringbuffer \<Rightarrow> error + ('a writer \<times> 'a ringbuffer)" where
  "writer_step Idle rb = Inr (Idle, rb)"
| "writer_step (AtCheck []) rb = Inr (Idle, rb)"
| "writer_step (AtCheck (item # rest)) rb =
     (if rb_full rb then Inr (BeforeReceive item rest, rb) else Inr (AtWrite item rest, rb))"
| "writer_step (BeforeReceive item rest) rb = Inr (AtReceive item rest, rb)"
| "writer_step (AtReceive item rest) rb = Inr (AtReceive item rest, rb)"
| "writer_step (AtWrite item rest) rb =
     (case rb_write item rb of Inl e \<Rightarrow> Inl e | Inr rb' \<Rightarrow> Inr (AtMove rest, rb'))"
| "writer_step (AtMove rest) rb = Inr (AtCheck rest, rb_moveWriterHeadForward rb)"

text \<open>
  The send in \<^verbatim>\<open>moveReaderHeadForward\<close>: it is taken by a writer blocked in the receive,
  which goes on to \<^verbatim>\<open>rb.write(item)\<close>; otherwise the \<^verbatim>\<open>default\<close> branch drops it, also
  when the writer has found the ring full and has not entered the receive yet.
\<close>

fun notify :: "'a writer \<Rightarrow> 'a writer" where
  "notify (AtReceive item rest) = AtWrite item rest"
| "notify w = w"

text \<open>
  Where a reader is in \<^verbatim>\<open>Read\<close>, with the iterations left and the slice collected: not in
  a call; at the head of the loop, before the comparison of the cursors; before
  \<^verbatim>\<open>rb.read()\<close>; in \<^verbatim>\<open>moveReaderHeadForward\<close> before the store of the read cursor; after
  that store and before the send on \<^verbatim>\<open>updateCh\<close>. The readers hold the mutex for a whole
  call, so one reader stands for all of them. The writer takes no lock.
\<close>

datatype 'a reader =
  ReaderIdle
| ReaderTest nat "(nat \<times> 'a) option list"
| ReaderLoad nat "(nat \<times> 'a) option list"
| ReaderStore nat "(nat \<times> 'a) option list"
| ReaderSend nat "(nat \<times> 'a) option list"

record 'a sys =
  sys_writer :: "'a writer"
  sys_reader :: "'a reader"
  sys_rb :: "'a ringbuffer"
  sys_returned :: "(nat \<times> 'a) option list list"

definition sys_New :: "int \<Rightarrow> 'a sys option" where
  "sys_New n =
     (case rb_New n of
        None \<Rightarrow> None
      | Some rb \<Rightarrow>
          Some \<lparr>sys_writer = Idle, sys_reader = ReaderIdle, sys_rb = rb, sys_returned = []\<rparr>)"

fun reader_step :: "'a reader \<Rightarrow> 'a sys \<Rightarrow> error + 'a sys" where
  "reader_step ReaderIdle s = Inr s"
| "reader_step (ReaderTest 0 result) s =
     Inr (s\<lparr>sys_reader := ReaderIdle, sys_returned := sys_returned s @ [result]\<rparr>)"
| "reader_step (ReaderTest (Suc i) result) s =
     (if rb_getReaderHead (sys_rb s) = rb_getWriterHead (sys_rb s)
      then Inr (s\<lparr>sys_reader := ReaderIdle, sys_returned := sys_returned s @ [result]\<rparr>)
      else Inr (s\<lparr>sys_reader := ReaderLoad i result\<rparr>))"
| "reader_step (ReaderLoad i result) s =
     (case rb_read (sys_rb s) of
        Inl e \<Rightarrow> Inl e
      | Inr v \<Rightarrow> Inr (s\<lparr>sys_reader := ReaderStore i (result @ [v])\<rparr>))"
| "reader_step (ReaderStore i result) s =
     Inr (s\<lparr>sys_rb := rb_moveReaderHeadForward (sys_rb s), sys_reader := ReaderSend i result\<rparr>)"
| "reader_step (ReaderSend i result) s =
     Inr (s\<lparr>sys_writer := notify (sys_writer s), sys_reader := ReaderTest i result\<rparr>)"

text \<open>
  What a schedule is made of: a call of \<^verbatim>\<open>WriteOrWait\<close> by the writer when it is in no
  call, a call of \<^verbatim>\<open>Read\<close> when no reader is in one, one step of the writer, one step of
  the reader. An action that cannot be taken leaves the state as it is.
\<close>

datatype 'a action =
  CallWriteOrWait "(nat \<times> 'a) option list"
| CallRead int
| WriterStep
| ReaderStep

fun sys_step :: "'a action \<Rightarrow> 'a sys \<Rightarrow> error + 'a sys" where
  "sys_step (CallWriteOrWait newItems) s =
     (if sys_writer s = Idle then Inr (s\<lparr>sys_writer := AtCheck newItems\<rparr>) else Inr s)"
| "sys_step (CallRead n) s =
     (if sys_reader s = ReaderIdle
      then (if n \<le> 0 then Inr (s\<lparr>sys_returned := sys_returned s @ [[]]\<rparr>)
            else Inr (s\<lparr>sys_reader := ReaderTest (nat n) []\<rparr>))
      else Inr s)"
| "sys_step WriterStep s =
     (case writer_step (sys_writer s) (sys_rb s) of
        Inl e \<Rightarrow> Inl e
      | Inr (w, rb) \<Rightarrow> Inr (s\<lparr>sys_writer := w, sys_rb := rb\<rparr>))"
| "sys_step ReaderStep s = reader_step (sys_reader s) s"

fun sys_run :: "'a action list \<Rightarrow> 'a sys \<Rightarrow> error + 'a sys" where
  "sys_run [] s = Inr s"
| "sys_run (a # as) s = (case sys_step a s of Inl e \<Rightarrow> Inl e | Inr s' \<Rightarrow> sys_run as s')"

text \<open>
  A schedule for a queue of capacity 2, of public calls only. \<^verbatim>\<open>WriteOrWait([1])\<close> runs
  and returns. \<^verbatim>\<open>Read(1)\<close> runs up to the store of the read cursor and is held before its
  send. \<^verbatim>\<open>WriteOrWait([2, 3])\<close> stores 2, finds the ring full for 3 and enters the
  receive. Then the reader's send is delivered.
\<close>

definition schedule_to_wake :: "int action list" where
  "schedule_to_wake =
     [CallWriteOrWait [Some (0, 1)], WriterStep, WriterStep, WriterStep, WriterStep,
      CallRead 1, ReaderStep, ReaderStep, ReaderStep,
      CallWriteOrWait [Some (0, 2), Some (0, 3)],
      WriterStep, WriterStep, WriterStep, WriterStep, WriterStep,
      ReaderStep]"

text \<open>
  How it goes on: the writer runs until \<^verbatim>\<open>WriteOrWait\<close> returns, \<^verbatim>\<open>Read(1)\<close> returns, and
  a \<^verbatim>\<open>Read(10)\<close> runs and returns.
\<close>

definition schedule_after_wake :: "int action list" where
  "schedule_after_wake =
     [WriterStep, WriterStep, WriterStep, ReaderStep, CallRead 10, ReaderStep]"

text \<open>The cells between the cursors of the blocking queue, in a ring of \<open>n\<close> cells.\<close>

definition rb_unread_slots :: "int \<Rightarrow> 'a ringbuffer \<Rightarrow> nat list" where
  "rb_unread_slots n rb =
     takeWhile (\<lambda>a. a \<noteq> rb_writeHead rb) (ring_walk (ring_next (rb_heap rb)) (nat n) (rb_readHead rb))"

section \<open>Representation of a ring with two cursors\<close>

text \<open>
  \<open>chain f a xs b\<close>: from cell \<open>a\<close>, the cells \<open>xs\<close> are passed in order and \<open>b\<close> is reached.
\<close>

primrec chain :: "(nat \<Rightarrow> nat) \<Rightarrow> nat \<Rightarrow> nat list \<Rightarrow> nat \<Rightarrow> bool" where
  "chain f a [] b = (a = b)"
| "chain f a (x # xs) b = (a = x \<and> chain f (f x) xs b)"

text \<open>
  The ring is one cycle of distinct allocated cells: the unread cells \<open>us\<close> from the read
  cursor, then the write cursor, then the free cells \<open>fs\<close> back to the read cursor. The
  \<^verbatim>\<open>Value\<close>s of the unread cells are \<open>items\<close>, a \<^verbatim>\<open>nil\<close> one among them where a \<^verbatim>\<open>nil\<close>
  item was written.
\<close>

definition ring_rep ::
  "'v ring_heap \<Rightarrow> nat \<Rightarrow> nat \<Rightarrow> nat list \<Rightarrow> nat list \<Rightarrow> 'v option list \<Rightarrow> bool" where
  "ring_rep h r w us fs items \<longleftrightarrow>
     chain (ring_next h) r us w \<and>
     chain (ring_next h) w (w # fs) r \<and>
     distinct (us @ w # fs) \<and>
     map (ring_Value h) us = items \<and>
     (\<forall>a \<in> set (us @ w # fs). a < ring_alloc h)"

definition cq_rep :: "'a cirque \<Rightarrow> nat list \<Rightarrow> nat list \<Rightarrow> 'a option list \<Rightarrow> bool" where
  "cq_rep cq us fs items \<longleftrightarrow>
     ring_rep (heap cq) (readHead cq) (writeHead cq) us fs items \<and>
     len cq = int (length items) \<and>
     cap cq = int (length us + 1 + length fs)"

definition cq_inv :: "'a cirque \<Rightarrow> 'a option list \<Rightarrow> bool" where
  "cq_inv cq items \<longleftrightarrow> (\<exists>us fs. cq_rep cq us fs items)"

section \<open>Chains of cells\<close>

lemma chain_append: "chain f a (xs @ ys) b \<longleftrightarrow> (\<exists>c. chain f a xs c \<and> chain f c ys b)"
  by (induction xs arbitrary: a) auto

lemma chain_cong: "(\<And>x. x \<in> set xs \<Longrightarrow> f x = g x) \<Longrightarrow> chain f a xs b = chain g a xs b"
  by (induction xs arbitrary: a) auto

lemma chain_walk: "chain f a xs b \<Longrightarrow> ring_walk f (length xs) a = xs"
  by (induction xs arbitrary: a) auto

lemma chain_snoc: "chain f a (xs @ [x]) b \<longleftrightarrow> chain f a xs x \<and> f x = b"
  by (auto simp: chain_append)

lemma chain_upt:
  "(\<And>a. b \<le> a \<Longrightarrow> Suc a < c \<Longrightarrow> f a = Suc a) \<Longrightarrow> b < c \<Longrightarrow> f (c - 1) = e \<Longrightarrow>
   chain f b [b ..< c] e"
proof (induction "c - b" arbitrary: b)
  case 0
  then show ?case by simp
next
  case (Suc d)
  have up: "[b ..< c] = b # [Suc b ..< c]" using Suc.prems(2) by (simp add: upt_conv_Cons)
  show ?case
  proof (cases "Suc b = c")
    case True
    then show ?thesis using Suc.prems(3) by (auto simp: up)
  next
    case False
    then have lt: "Suc b < c" using Suc.prems(2) by simp
    have "d = c - Suc b" using Suc.hyps(2) by simp
    from Suc.hyps(1)[OF this _ lt Suc.prems(3)] Suc.prems(1)
    have "chain f (Suc b) [Suc b ..< c] e" by simp
    moreover have "f b = Suc b" using Suc.prems(1)[of b] lt by simp
    ultimately show ?thesis by (simp add: up)
  qed
qed

subsection \<open>A fresh ring, and a fresh ring linked in\<close>

lemma ring_New_fields:
  assumes "0 < k"
  shows "fst (ring_New k h) = Some (ring_alloc h)"
    "ring_alloc (snd (ring_New k h)) = ring_alloc h + nat k"
    "ring_Value (snd (ring_New k h)) =
       (\<lambda>a. if ring_alloc h \<le> a \<and> a < ring_alloc h + nat k then None else ring_Value h a)"
    "ring_next (snd (ring_New k h)) =
       (\<lambda>a. if ring_alloc h \<le> a \<and> a < ring_alloc h + nat k
            then (if Suc a = ring_alloc h + nat k then ring_alloc h else Suc a)
            else ring_next h a)"
  using assms by (simp_all add: ring_New_def Let_def)

lemma ring_New_rep:
  assumes n: "0 < n"
  shows "ring_rep (snd (ring_New n empty_heap)) 0 0 [] [1 ..< nat n] ([] :: 'v option list)"
proof -
  let ?h = "snd (ring_New n (empty_heap :: 'v ring_heap))"
  have al0: "ring_alloc (empty_heap :: 'v ring_heap) = 0" by (simp add: empty_heap_def)
  have nx: "ring_next ?h = (\<lambda>a. if a < nat n then (if Suc a = nat n then 0 else Suc a) else a)"
    unfolding ring_New_fields(4)[OF n] by (auto simp: empty_heap_def fun_eq_iff)
  have "chain (ring_next ?h) 0 [0 ..< nat n] 0"
  proof (rule chain_upt)
    fix a :: nat assume "Suc a < nat n"
    then show "ring_next ?h a = Suc a" by (simp add: nx)
  next
    show "0 < nat n" using n by simp
  next
    have "nat n - 1 < nat n" "Suc (nat n - 1) = nat n" using n by linarith+
    then show "ring_next ?h (nat n - 1) = 0" unfolding nx by (simp only: simp_thms if_True)
  qed
  moreover have "[0 ..< nat n] = 0 # [1 ..< nat n]" using n by (simp add: upt_conv_Cons)
  ultimately have ch: "chain (ring_next ?h) 0 (0 # [1 ..< nat n]) 0" by simp
  have al: "ring_alloc ?h = nat n" by (simp add: ring_New_fields(2)[OF n] al0)
  show ?thesis
    unfolding ring_rep_def using ch al n by auto
qed

lemma grow_heap_fields:
  assumes k: "0 < k" and wb: "w < ring_alloc h"
  defines "h' \<equiv> ring_Link w (fst (ring_New k h)) (snd (ring_New k h))"
  shows "ring_alloc h' = ring_alloc h + nat k"
    "ring_Value h' =
       (\<lambda>a. if ring_alloc h \<le> a \<and> a < ring_alloc h + nat k then None else ring_Value h a)"
    "ring_next h' =
       (\<lambda>a. if a = w then ring_alloc h
            else if Suc a = ring_alloc h + nat k then ring_next h w
            else if ring_alloc h \<le> a \<and> a < ring_alloc h + nat k then Suc a
            else ring_next h a)"
  using k wb unfolding h'_def
  by (auto simp add: ring_New_def ring_Link_def Let_def fun_eq_iff)

lemma ring_rep_link:
  assumes rep: "ring_rep h r w us fs items" and k: "0 < k"
  defines "h' \<equiv> ring_Link w (fst (ring_New k h)) (snd (ring_New k h))"
  shows "ring_rep h' r w us ([ring_alloc h ..< ring_alloc h + nat k] @ fs) items"
proof -
  let ?nx = "ring_next h" and ?b = "ring_alloc h" and ?nx' = "ring_next h'"
  from rep have c1: "chain ?nx r us w"
    and c2: "chain ?nx (?nx w) fs r"
    and d: "distinct (us @ w # fs)"
    and v: "map (ring_Value h) us = items"
    and a: "\<forall>a \<in> set (us @ w # fs). a < ?b"
    by (auto simp: ring_rep_def)
  have wb: "w < ?b" using a by simp
  note hf = grow_heap_fields[OF k wb, folded h'_def]
  have kn: "0 < nat k" using k by simp
  have old: "?nx' x = ?nx x" if "x < ?b" "x \<noteq> w" for x
  proof -
    have "Suc x \<noteq> ?b + nat k" using that(1) kn by linarith
    then show ?thesis using that by (simp add: hf(3))
  qed
  have c1': "chain ?nx' r us w"
    using c1 d a by (subst chain_cong[of us ?nx' ?nx]) (auto intro!: old)
  have c2': "chain ?nx' (?nx w) fs r"
    using c2 d a by (subst chain_cong[of fs ?nx' ?nx]) (auto intro!: old)
  have c3: "chain ?nx' ?b [?b ..< ?b + nat k] (?nx w)"
  proof (rule chain_upt)
    fix a assume "?b \<le> a" "Suc a < ?b + nat k"
    then show "?nx' a = Suc a" using wb by (simp add: hf(3))
  next
    show "?b < ?b + nat k" using kn by simp
  next
    have "?b + nat k - 1 \<noteq> w" "Suc (?b + nat k - 1) = ?b + nat k"
      using wb kn by linarith+
    then show "?nx' (?b + nat k - 1) = ?nx w"
      unfolding hf(3) by (simp only: simp_thms if_True if_False)
  qed
  have w': "?nx' w = ?b" by (simp add: hf(3))
  have v': "map (ring_Value h') us = items"
  proof -
    have "ring_Value h' x = ring_Value h x" if "x \<in> set us" for x
    proof -
      have "x < ?b" using a that by simp
      then show ?thesis by (simp add: hf(2))
    qed
    then have "map (ring_Value h') us = map (ring_Value h) us"
      by simp
    then show ?thesis using v by simp
  qed
  have fresh: "x \<notin> set us \<and> x \<notin> set fs \<and> x \<noteq> w" if "?b \<le> x" for x
    using a that by (auto simp: not_less[symmetric])
  have d': "distinct (us @ w # [?b ..< ?b + nat k] @ fs)"
    using d fresh by auto
  have a': "\<forall>a \<in> set (us @ w # [?b ..< ?b + nat k] @ fs). a < ?b + nat k"
    using a by (auto simp: trans_less_add1)
  show ?thesis
    unfolding ring_rep_def hf(1)
    using c1' c2' c3 w' v' d' a' by (auto simp: chain_append)
qed

subsection \<open>Moving the cursors\<close>

lemma ring_rep_empty_iff: "ring_rep h r w us fs items \<Longrightarrow> (r = w) = (us = [])"
  by (cases us) (auto simp: ring_rep_def)

lemma ring_rep_full_iff: "ring_rep h r w us fs items \<Longrightarrow> (ring_next h w = r) = (fs = [])"
  by (cases fs; cases us) (auto simp: ring_rep_def)

lemma ring_rep_lengths: "ring_rep h r w us fs items \<Longrightarrow> length us = length items"
  unfolding ring_rep_def by auto

lemma ring_rep_store:
  assumes "ring_rep h r w us fs items"
  shows "ring_rep (h\<lparr>ring_Value := (ring_Value h)(w := x)\<rparr>) r w us fs items"
proof -
  from assms have "w \<notin> set us" by (auto simp: ring_rep_def)
  then have "map ((ring_Value h)(w := x)) us = map (ring_Value h) us"
    by (induction us) auto
  then show ?thesis using assms by (simp add: ring_rep_def)
qed

lemma ring_rep_advance_writer:
  assumes "ring_rep h r w us (f # fs) items" "ring_Value h w = x"
  shows "ring_next h w = f" "ring_rep h r f (us @ [w]) fs (items @ [x])"
  using assms by (auto simp: ring_rep_def chain_snoc)

lemma ring_rep_advance_reader:
  assumes "ring_rep h r w (u # us) fs (x # items)"
  shows "r = u" "ring_Value h r = x" "ring_rep h (ring_next h r) w us (fs @ [u]) items"
proof -
  from assms show u: "r = u" and "ring_Value h r = x" by (auto simp: ring_rep_def)
  from assms have "chain (ring_next h) w (w # fs) u" by (auto simp: ring_rep_def)
  then have "chain (ring_next h) w ((w # fs) @ [u]) (ring_next h u)"
    by (subst chain_snoc) simp
  then show "ring_rep h (ring_next h r) w us (fs @ [u]) items"
    using assms u by (auto simp: ring_rep_def)
qed

lemma ring_rep_walk:
  assumes "ring_rep h r w us fs items"
  shows "ring_walk (ring_next h) (length us + 1 + length fs) r = us @ w # fs"
    and "ring_next h (last (w # fs)) = r"
proof -
  from assms have "chain (ring_next h) r (us @ w # fs) r"
    by (auto simp: ring_rep_def chain_append)
  from chain_walk[OF this] show "ring_walk (ring_next h) (length us + 1 + length fs) r = us @ w # fs"
    by simp
  from assms have "chain (ring_next h) w (butlast (w # fs) @ [last (w # fs)]) r"
    unfolding ring_rep_def by (simp only: append_butlast_last_id list.simps simp_thms)
  then show "ring_next h (last (w # fs)) = r" by (simp only: chain_snoc)
qed

lemma ring_rep_unread:
  assumes "ring_rep h r w us fs items"
  shows "takeWhile (\<lambda>a. a \<noteq> w) (us @ w # fs) = us"
proof -
  from assms have "w \<notin> set us" by (auto simp: ring_rep_def)
  then show ?thesis by (induction us) auto
qed

section \<open>The growing queue represents a list\<close>

lemma New_Some:
  assumes "0 < n"
  shows "New n = Some \<lparr>writeHead = 0, readHead = 0, len = 0, cap = n,
                        heap = snd (ring_New n empty_heap)\<rparr>"
  using assms by (simp add: New_def ring_New_def Let_def empty_heap_def)

lemma New_None: "n \<le> 0 \<Longrightarrow> New n = None"
  by (simp add: New_def)

lemma New_rep:
  assumes "New n = Some (cq :: 'a cirque)"
  shows "cq_rep cq [] [1 ..< nat n] []"
proof -
  from assms have n: "0 < n" by (simp add: New_def split: if_splits)
  from assms New_Some[OF n, where 'a = 'a]
  have cq: "cq = \<lparr>writeHead = 0, readHead = 0, len = 0, cap = n, heap = snd (ring_New n empty_heap)\<rparr>"
    by simp
  show ?thesis unfolding cq_rep_def cq using ring_New_rep[OF n] n by simp
qed

lemma grow_eq:
  assumes "0 < k"
  shows "grow k cq =
     cq\<lparr>heap := ring_Link (writeHead cq) (fst (ring_New k (heap cq))) (snd (ring_New k (heap cq))),
         cap := cap cq + k\<rparr>"
  using assms by (simp add: grow_def Let_def split: prod.splits)

lemma grow_rep:
  assumes rep: "cq_rep cq us fs items" and k: "0 < k"
  shows "cq_rep (grow k cq) us ([ring_alloc (heap cq) ..< ring_alloc (heap cq) + nat k] @ fs) items"
  using rep k ring_rep_link[of "heap cq" "readHead cq" "writeHead cq" us fs items k]
  by (simp add: cq_rep_def grow_eq[OF k])

lemma store_advance_rep:
  assumes "cq_rep cq us (f # fs) items"
  shows "cq_rep (moveWriterHeadForward ((writeItem x cq)\<lparr>len := len (writeItem x cq) + 1\<rparr>))
           (us @ [writeHead cq]) fs (items @ [x])"
proof -
  let ?h = "(heap cq)\<lparr>ring_Value := (ring_Value (heap cq))(writeHead cq := x)\<rparr>"
  from assms have r: "ring_rep (heap cq) (readHead cq) (writeHead cq) us (f # fs) items"
    by (simp add: cq_rep_def)
  have st: "ring_rep ?h (readHead cq) (writeHead cq) us (f # fs) items"
    by (rule ring_rep_store[OF r])
  have v: "ring_Value ?h (writeHead cq) = x" by simp
  from ring_rep_advance_writer[OF st v]
  have "ring_next (heap cq) (writeHead cq) = f"
    "ring_rep ?h (readHead cq) f (us @ [writeHead cq]) fs (items @ [x])"
    by simp_all
  then show ?thesis using assms
    by (simp add: cq_rep_def moveWriterHeadForward_def writeItem_def getWriterHead_def)
qed

lemma rep_cap_pos: "cq_rep cq us fs items \<Longrightarrow> 0 < cap cq"
  by (simp add: cq_rep_def)

lemma rep_full_iff:
  "cq_rep cq us fs items \<Longrightarrow> (ring_next (heap cq) (writeHead cq) = readHead cq) = (fs = [])"
  unfolding cq_rep_def using ring_rep_full_iff by blast

lemma rep_empty_iff: "cq_rep cq us fs items \<Longrightarrow> (readHead cq = writeHead cq) = (us = [])"
  unfolding cq_rep_def using ring_rep_empty_iff by blast

lemma rep_lengths: "cq_rep cq us fs items \<Longrightarrow> length us = length items"
  unfolding cq_rep_def using ring_rep_lengths by blast

lemma enqueue_item_free:
  "ring_next (heap cq) (writeHead cq) \<noteq> readHead cq \<Longrightarrow>
   enqueue_item es x cq = moveWriterHeadForward ((writeItem x cq)\<lparr>len := len (writeItem x cq) + 1\<rparr>)"
  by (simp add: enqueue_item_def getWriterHead_def getReaderHead_def Let_def)

lemma enqueue_item_full:
  "ring_next (heap cq) (writeHead cq) = readHead cq \<Longrightarrow>
   enqueue_item es x cq =
     moveWriterHeadForward
       ((writeItem x (grow (cap cq + int (length es)) cq))
          \<lparr>len := len (writeItem x (grow (cap cq + int (length es)) cq)) + 1\<rparr>)"
  by (simp add: enqueue_item_def getWriterHead_def getReaderHead_def Let_def)

lemma enqueue_item_rep:
  assumes "cq_rep cq us fs items"
  shows "\<exists>fs'. cq_rep (enqueue_item es x cq) (us @ [writeHead cq]) fs' (items @ [x])"
proof (cases "fs = []")
  case False
  then obtain f fs' where fs: "fs = f # fs'" by (cases fs) auto
  have "ring_next (heap cq) (writeHead cq) \<noteq> readHead cq"
    using rep_full_iff[OF assms] False by simp
  from enqueue_item_free[OF this] store_advance_rep[OF assms[unfolded fs]]
  show ?thesis by auto
next
  case True
  let ?k = "cap cq + int (length es)"
  have k: "0 < ?k" using rep_cap_pos[OF assms] by simp
  have full: "ring_next (heap cq) (writeHead cq) = readHead cq"
    using rep_full_iff[OF assms] True by simp
  let ?b = "ring_alloc (heap cq)"
  have up: "[?b ..< ?b + nat ?k] = ?b # [Suc ?b ..< ?b + nat ?k]"
    using k by (simp add: upt_conv_Cons)
  have w: "writeHead (grow ?k cq) = writeHead cq" by (simp add: grow_eq[OF k])
  have "cq_rep (grow ?k cq) us (?b # [Suc ?b ..< ?b + nat ?k] @ fs) items"
    using grow_rep[OF assms k] up by simp
  from store_advance_rep[OF this, of x] show ?thesis
    unfolding enqueue_item_full[OF full] w by blast
qed

lemma enqueue_item_inv:
  assumes "cq_inv cq items"
  shows "cq_inv (enqueue_item es x cq) (items @ [x])"
proof -
  from assms obtain us fs where "cq_rep cq us fs items" by (auto simp: cq_inv_def)
  from enqueue_item_rep[OF this, of es x] show ?thesis by (auto simp: cq_inv_def)
qed

lemma fold_enqueue_inv:
  "cq_inv cq items \<Longrightarrow> cq_inv (fold (enqueue_item es) xs cq) (items @ xs)"
proof (induction xs arbitrary: cq items)
  case Nil
  then show ?case by simp
next
  case (Cons x xs)
  from Cons.IH[OF enqueue_item_inv[OF Cons.prems, of es x]] show ?case by simp
qed

lemma Enqueue_inv: "cq_inv cq items \<Longrightarrow> cq_inv (Enqueue xs cq) (items @ xs)"
  by (simp add: Enqueue_def fold_enqueue_inv)

lemma read_advance_rep:
  assumes "cq_rep cq (u # us) fs (x # items)"
  shows "read cq = (case x of None \<Rightarrow> Inl Panic | Some v \<Rightarrow> Inr x)"
    and "cq_rep (moveReaderHeadForward (cq\<lparr>len := len cq - 1\<rparr>)) us (fs @ [u]) items"
proof -
  from assms have r: "ring_rep (heap cq) (readHead cq) (writeHead cq) (u # us) fs (x # items)"
    by (simp add: cq_rep_def)
  note ra = ring_rep_advance_reader[OF r]
  show "read cq = (case x of None \<Rightarrow> Inl Panic | Some v \<Rightarrow> Inr x)"
    using ra(2) by (simp add: read_def getReaderHead_def split: option.splits)
  show "cq_rep (moveReaderHeadForward (cq\<lparr>len := len cq - 1\<rparr>)) us (fs @ [u]) items"
    using ra(3) assms by (simp add: cq_rep_def moveReaderHeadForward_def)
qed

text \<open>
  The loop of \<^verbatim>\<open>Dequeue\<close> on a queue that holds \<open>items\<close>: it panics when a \<^verbatim>\<open>nil\<close> item is
  among those it would take, and otherwise takes them in order.
\<close>

lemma dequeue_loop_rep:
  assumes "cq_rep cq us fs items"
  shows "if None \<in> set (take i items) then dequeue_loop i result cq = Inl Panic
         else (\<exists>cq'. dequeue_loop i result cq = Inr (result @ take i items, cq') \<and>
                 cq_rep cq' (drop i us) (fs @ take i us) (drop i items))"
  using assms
proof (induction i arbitrary: cq us fs items result)
  case 0
  then show ?case by simp
next
  case (Suc i)
  show ?case
  proof (cases us)
    case Nil
    then have "readHead cq = writeHead cq" using rep_empty_iff[OF Suc.prems] by simp
    moreover have "items = []" using rep_lengths[OF Suc.prems] Nil by simp
    ultimately show ?thesis using Suc.prems Nil
      by (simp add: getReaderHead_def getWriterHead_def)
  next
    case (Cons u us')
    then obtain x items' where it: "items = x # items'"
      using rep_lengths[OF Suc.prems] by (cases items) auto
    have ne: "readHead cq \<noteq> writeHead cq" using rep_empty_iff[OF Suc.prems] Cons by simp
    note ra = read_advance_rep[OF Suc.prems[unfolded Cons it]]
    show ?thesis
    proof (cases x)
      case None
      then show ?thesis using ne ra(1) it
        by (simp add: getReaderHead_def getWriterHead_def)
    next
      case (Some v)
      have rd: "read cq = Inr x" using ra(1) Some by simp
      have step: "dequeue_loop (Suc i) result cq =
          dequeue_loop i (result @ [x]) (moveReaderHeadForward (cq\<lparr>len := len cq - 1\<rparr>))"
        using ne rd by (simp add: getReaderHead_def getWriterHead_def)
      have mem: "(None \<in> set (take (Suc i) items)) = (None \<in> set (take i items'))"
        using it Some by auto
      from Suc.IH[OF ra(2), of "result @ [x]"] show ?thesis
        unfolding step mem using it Cons by (auto split: if_splits)
    qed
  qed
qed

lemma Dequeue_inv:
  assumes "cq_inv cq items" "None \<notin> set (take (nat n) items)"
  shows "\<exists>cq'. Dequeue n cq = Inr (take (nat n) items, cq') \<and> cq_inv cq' (drop (nat n) items)"
proof (cases "n \<le> 0")
  case True
  then show ?thesis using assms by (simp add: Dequeue_def)
next
  case False
  from assms obtain us fs where "cq_rep cq us fs items" by (auto simp: cq_inv_def)
  from dequeue_loop_rep[OF this, of "nat n" "[]"] assms(2) False show ?thesis
    by (auto simp: Dequeue_def cq_inv_def)
qed

lemma Dequeue_nil_panics:
  assumes "cq_inv cq items" "None \<in> set (take (nat n) items)"
  shows "Dequeue n cq = Inl Panic"
proof -
  from assms(2) have n: "\<not> n \<le> 0" by (cases "n \<le> 0") auto
  from assms obtain us fs where "cq_rep cq us fs items" by (auto simp: cq_inv_def)
  from dequeue_loop_rep[OF this, of "nat n" "[]"] assms(2) n show ?thesis
    by (simp add: Dequeue_def)
qed

lemma Dequeue_returns_inv:
  assumes "cq_inv cq items" "Dequeue n cq = Inr (result, cq')"
  shows "result = take (nat n) items \<and> cq_inv cq' (drop (nat n) items)"
proof (cases "None \<in> set (take (nat n) items)")
  case True
  from Dequeue_nil_panics[OF assms(1) True] assms(2) show ?thesis by simp
next
  case False
  from Dequeue_inv[OF assms(1) False] assms(2) show ?thesis by auto
qed

lemma New_inv: "New n = Some cq \<Longrightarrow> cq_inv cq []"
  unfolding cq_inv_def using New_rep by blast

lemma reachable_inv: "reachable cq \<Longrightarrow> \<exists>items. cq_inv cq items"
proof (induction rule: reachable.induct)
  case (reachable_New n cq)
  then show ?case using New_inv by blast
next
  case (reachable_enqueue_item cq item elements)
  then obtain items where "cq_inv cq items" by blast
  from enqueue_item_inv[OF this, of elements item] show ?case by blast
next
  case (reachable_Dequeue cq n result cq')
  then obtain items where "cq_inv cq items" by blast
  from Dequeue_returns_inv[OF this reachable_Dequeue.hyps(2)] show ?case by blast
qed

lemma reachable_fold:
  "reachable cq \<Longrightarrow> set xs \<subseteq> set es \<Longrightarrow> reachable (fold (enqueue_item es) xs cq)"
proof (induction xs arbitrary: cq)
  case Nil
  then show ?case by simp
next
  case (Cons x xs)
  have "reachable (enqueue_item es x cq)"
    by (rule reachable_enqueue_item[OF Cons.prems(1)]) (use Cons.prems(2) in simp)
  from Cons.IH[OF this] Cons.prems(2) show ?case by simp
qed

lemma reachable_Enqueue: "reachable cq \<Longrightarrow> reachable (Enqueue es cq)"
  by (simp add: Enqueue_def reachable_fold)

lemma rep_ring_slots:
  assumes "cq_rep cq us fs items"
  shows "ring_slots cq = us @ writeHead cq # fs" "unread_slots cq = us"
proof -
  from assms have r: "ring_rep (heap cq) (readHead cq) (writeHead cq) us fs items"
    and c: "nat (cap cq) = length us + 1 + length fs"
    by (simp_all add: cq_rep_def)
  show s: "ring_slots cq = us @ writeHead cq # fs"
    unfolding ring_slots_def c by (rule ring_rep_walk(1)[OF r])
  show "unread_slots cq = us"
    unfolding unread_slots_def s by (rule ring_rep_unread[OF r])
qed

section \<open>Sequential use of the growing queue\<close>

lemma run_calls_enqueues:
  "run_calls (map CallEnqueue batches @ cs) cq = run_calls cs (fold Enqueue batches cq)"
  by (induction batches arbitrary: cq) auto

lemma fold_Enqueue_inv:
  "cq_inv cq items \<Longrightarrow> cq_inv (fold Enqueue batches cq) (items @ concat batches)"
proof (induction batches arbitrary: cq items)
  case Nil
  then show ?case by simp
next
  case (Cons b bs)
  from Cons.IH[OF Enqueue_inv[OF Cons.prems, of b]] show ?case by simp
qed

lemma Dequeue_empty:
  "readHead cq = writeHead cq \<Longrightarrow> Dequeue n cq = Inr ([], cq)"
  by (cases "nat n") (auto simp: Dequeue_def getReaderHead_def getWriterHead_def)

lemma inv_empty_heads: "cq_inv cq [] \<Longrightarrow> readHead cq = writeHead cq"
  unfolding cq_inv_def using rep_empty_iff rep_lengths by fastforce

lemma inv_Len: "cq_inv cq items \<Longrightarrow> Len cq = int (length items)"
  by (auto simp: cq_inv_def cq_rep_def Len_def)

lemma inv_contents:
  assumes "cq_inv cq items"
  shows "map (ring_Value (heap cq)) (unread_slots cq) = items"
proof -
  from assms obtain us fs where r: "cq_rep cq us fs items" by (auto simp: cq_inv_def)
  then show ?thesis by (simp add: rep_ring_slots(2)[OF r] cq_rep_def ring_rep_def)
qed

lemma reachable_rep: "reachable cq \<Longrightarrow> \<exists>us fs items. cq_rep cq us fs items"
  using reachable_inv unfolding cq_inv_def by blast

text \<open>
  As long as no \<^verbatim>\<open>nil\<close> item is enqueued, every sequence of calls runs without a panic,
  the items dequeued followed by the items held are the items enqueued, in order, and
  \<^verbatim>\<open>Len()\<close> is the difference of the counts.
\<close>

lemma run_calls_inv:
  assumes "cq_inv cq items" "None \<notin> set items" "None \<notin> set (enqueued calls)"
  shows "\<exists>outs cq' items'. run_calls calls cq = Inr (outs, cq') \<and> cq_inv cq' items' \<and>
           items @ enqueued calls = concat outs @ items'"
  using assms
proof (induction calls arbitrary: cq items)
  case Nil
  then show ?case by auto
next
  case (Cons c cs)
  show ?case
  proof (cases c)
    case (CallEnqueue es)
    have "None \<notin> set (items @ es)" "None \<notin> set (enqueued cs)"
      using Cons.prems(2,3) CallEnqueue by auto
    from Cons.IH[OF Enqueue_inv[OF Cons.prems(1), of es] this] show ?thesis
      unfolding CallEnqueue by simp
  next
    case (CallDequeue n)
    have t: "None \<notin> set (take (nat n) items)" "None \<notin> set (drop (nat n) items)"
      using Cons.prems(2) by (auto dest: in_set_takeD in_set_dropD)
    from Dequeue_inv[OF Cons.prems(1) t(1)] obtain cq1 where
      d: "Dequeue n cq = Inr (take (nat n) items, cq1)" and i: "cq_inv cq1 (drop (nat n) items)"
      by blast
    have "None \<notin> set (enqueued cs)" using Cons.prems(3) CallDequeue by simp
    from Cons.IH[OF i t(2) this] obtain outs cq' items' where
      r: "run_calls cs cq1 = Inr (outs, cq')" and i': "cq_inv cq' items'"
      and e: "drop (nat n) items @ enqueued cs = concat outs @ items'"
      by blast
    have "items @ enqueued cs = take (nat n) items @ concat outs @ items'"
      using e by (metis append_assoc append_take_drop_id)
    then show ?thesis unfolding CallDequeue using d r i' by auto
  qed
qed

lemma non_nil_items_are_kept:
  assumes "New n = Some cq0" "None \<notin> set (enqueued calls)"
  shows "\<exists>outs cq held. run_calls calls cq0 = Inr (outs, cq) \<and>
      map (ring_Value (heap cq)) (unread_slots cq) = held \<and>
      concat outs @ held = enqueued calls \<and>
      Len cq = int (length (enqueued calls)) - int (length (concat outs))"
proof -
  have "cq_inv cq0 []" by (rule New_inv[OF assms(1)])
  from run_calls_inv[OF this _ assms(2)] obtain outs cq items' where
    r: "run_calls calls cq0 = Inr (outs, cq)" and i: "cq_inv cq items'"
    and e: "enqueued calls = concat outs @ items'"
    by auto
  have "Len cq = int (length (enqueued calls)) - int (length (concat outs))"
    unfolding inv_Len[OF i] e by simp
  then show ?thesis using r inv_contents[OF i] e by auto
qed

text \<open>
  The scenario of the repository's test: capacity 50, the integers 0 .. 499 enqueued one
  call at a time, 500 single-item dequeues, then a dequeue on the empty queue.
\<close>

lemma run_single_dequeues:
  assumes "cq_inv cq items" "None \<notin> set items"
  shows "\<exists>cq'. run_calls (replicate (length items) (CallDequeue 1)) cq =
            Inr (map (\<lambda>x. [x]) items, cq') \<and> cq_inv cq' []"
  using assms
proof (induction items arbitrary: cq)
  case Nil
  then show ?case by simp
next
  case (Cons x xs)
  have "None \<notin> set (take (nat 1) (x # xs))" using Cons.prems(2) by simp
  from Dequeue_inv[OF Cons.prems(1) this] obtain cq1 where
    d: "Dequeue 1 cq = Inr ([x], cq1)" and i: "cq_inv cq1 xs"
    by auto
  have "None \<notin> set xs" using Cons.prems(2) by simp
  from Cons.IH[OF i this] d show ?case by auto
qed

lemma test_scenario:
  "\<exists>cq0 cq1. New 50 = Some cq0 \<and>
      run_calls (map (\<lambda>i. CallEnqueue [Some (int i)]) [0 ..< 500] @ replicate 500 (CallDequeue 1)) cq0 =
        Inr (map (\<lambda>i. [Some (int i)]) [0 ..< 500], cq1) \<and>
      Dequeue 1 cq1 = Inr ([], cq1) \<and> Dequeue 50 cq1 = Inr ([], cq1)"
proof -
  let ?init = "\<lparr>writeHead = 0, readHead = 0, len = 0, cap = 50,
                heap = snd (ring_New 50 (empty_heap :: int ring_heap))\<rparr>"
  let ?batches = "map (\<lambda>i. [Some (int i)]) [0 ..< 500]"
  have n: "New 50 = Some ?init" by (rule New_Some) simp
  have "cq_inv ?init []" by (rule New_inv[OF n])
  from fold_Enqueue_inv[OF this, of ?batches]
  have i: "cq_inv (fold Enqueue ?batches ?init) (map (\<lambda>i. Some (int i)) [0 ..< 500])"
    by simp
  have "None \<notin> set (map (\<lambda>i. Some (int i)) [0 ..< 500])" by auto
  from run_single_dequeues[OF i this] obtain cq1 where
    r: "run_calls (replicate 500 (CallDequeue 1)) (fold Enqueue ?batches ?init) =
          Inr (map (\<lambda>i. [Some (int i)]) [0 ..< 500], cq1)"
    and e: "cq_inv cq1 []"
    by (auto simp: comp_def)
  have m: "map (\<lambda>i. CallEnqueue [Some (int i)]) [0 ..< 500] = map CallEnqueue ?batches"
    by (simp add: comp_def)
  have "run_calls (map (\<lambda>i. CallEnqueue [Some (int i)]) [0 ..< 500] @
          replicate 500 (CallDequeue 1)) ?init =
          Inr (map (\<lambda>i. [Some (int i)]) [0 ..< 500], cq1)"
    unfolding m run_calls_enqueues by (rule r)
  moreover have "Dequeue 1 cq1 = Inr ([], cq1)" "Dequeue 50 cq1 = Inr ([], cq1)"
    by (rule Dequeue_empty[OF inv_empty_heads[OF e]])+
  ultimately show ?thesis using n by blast
qed

lemmas cq_eval =
  New_def ring_New_def empty_heap_def Enqueue_def enqueue_item_def Dequeue_def grow_def
  ring_Link_def Let_def writeItem_def moveWriterHeadForward_def moveReaderHeadForward_def
  getWriterHead_def getReaderHead_def read_def unread_slots_def ring_slots_def

text \<open>
  C1. The code breaks the claim on a \<^verbatim>\<open>nil\<close> item of an interface type. In a queue of
  \<^verbatim>\<open>any\<close> with capacity 2, after \<^verbatim>\<open>Enqueue(1, nil, 2)\<close> the call \<^verbatim>\<open>Dequeue(3)\<close> does not
  return the three items in the order written: \<^verbatim>\<open>write\<close> left a \<^verbatim>\<open>nil\<close> \<^verbatim>\<open>Value\<close> in the
  second cell, and the type assertion of \<^verbatim>\<open>read\<close> panics there. Read one at a time, the
  first item comes out and the second call panics.
\<close>

theorem nil_item_breaks_fifo:
  "run_calls [CallEnqueue [Some 1, None, Some 2], CallDequeue 3] (the (New 2 :: int cirque option)) =
     Inl Panic \<and>
   map_sum id fst
     (run_calls [CallEnqueue [Some 1, None, Some 2], CallDequeue 1]
        (the (New 2 :: int cirque option))) = Inr [[Some 1]] \<and>
   run_calls [CallEnqueue [Some 1, None, Some 2], CallDequeue 1, CallDequeue 1]
     (the (New 2 :: int cirque option)) = Inl Panic"
  by (simp add: cq_eval eval_nat_numeral)

text \<open>
  C3. The code breaks the claim on a \<^verbatim>\<open>nil\<close> item of an interface type. After
  \<^verbatim>\<open>New(2)\<close> and \<^verbatim>\<open>Enqueue(nil)\<close>, a state reached by the public operations, the cursors
  differ, the one cell between them was written and holds a \<^verbatim>\<open>nil\<close> \<^verbatim>\<open>Value\<close>, and the
  value extraction of the read step fails: \<^verbatim>\<open>read\<close> panics, and so does \<^verbatim>\<open>Dequeue(1)\<close>.
\<close>

theorem nil_item_fails_extraction:
  "reachable (Enqueue [None] (the (New 2 :: int cirque option))) \<and>
   readHead (Enqueue [None] (the (New 2 :: int cirque option))) = 0 \<and>
   writeHead (Enqueue [None] (the (New 2 :: int cirque option))) = 1 \<and>
   unread_slots (Enqueue [None] (the (New 2 :: int cirque option))) = [0] \<and>
   ring_Value (heap (Enqueue [None] (the (New 2 :: int cirque option)))) 0 = None \<and>
   read (Enqueue [None] (the (New 2 :: int cirque option))) = Inl Panic \<and>
   Dequeue 1 (Enqueue [None] (the (New 2 :: int cirque option))) = Inl Panic"
proof -
  have n: "New 2 = Some (the (New 2 :: int cirque option))" by (simp add: New_Some)
  have r: "reachable (Enqueue [None] (the (New 2 :: int cirque option)))"
    by (rule reachable_Enqueue[OF reachable_New[OF n]])
  show ?thesis using r by (simp add: cq_eval eval_nat_numeral)
qed

text \<open>
  C4. The code breaks the claim on a \<^verbatim>\<open>nil\<close> item of an interface type. After
  \<^verbatim>\<open>New(2)\<close> and \<^verbatim>\<open>Enqueue(1, nil, 2)\<close> (which grows the ring and does not block), \<^verbatim>\<open>Len()\<close>
  is 3. \<^verbatim>\<open>Dequeue(2)\<close> takes the first item, panics on the second and returns nothing, so
  the first item is dropped; and once the first item is out, every \<^verbatim>\<open>Dequeue\<close> with a
  positive count panics, so the third item is never returned.
\<close>

theorem nil_item_drops_items:
  "Len (Enqueue [Some 1, None, Some 2] (the (New 2 :: int cirque option))) = 3 \<and>
   Dequeue 2 (Enqueue [Some 1, None, Some 2] (the (New 2 :: int cirque option))) = Inl Panic \<and>
   run_calls [CallEnqueue [Some 1, None, Some 2], CallDequeue 1, CallDequeue 5]
     (the (New 2 :: int cirque option)) = Inl Panic"
  by (simp add: cq_eval Len_def eval_nat_numeral)

lemma ring_rep_walk_from_writer:
  assumes "ring_rep h r w us fs items"
  shows "ring_walk (ring_next h) (length us + 1 + length fs) w = w # fs @ us"
proof -
  from assms have "chain (ring_next h) w ((w # fs) @ us) w"
    unfolding chain_append by (auto simp: ring_rep_def)
  from chain_walk[OF this] show ?thesis by (simp add: add.commute)
qed


text \<open>
  C5. In a reachable state, a growth by a positive amount \<open>k\<close> splices \<open>k\<close> fresh, empty
  cells into the ring directly after the cell at the write cursor and nowhere else: the
  walk from the write cursor is the write cursor, the new cells, then the old walk beyond
  the write cursor. The capacity counter grows by exactly \<open>k\<close>; every cell that existed
  keeps its value and, but for the write cursor's cell, its successor; the unread cells,
  both cursors and the length counter are unchanged.
\<close>

theorem grow_splices_after_write_cursor:
  "reachable cq \<Longrightarrow> 0 < k \<Longrightarrow>
     ring_walk (ring_next (heap (grow k cq))) (nat (cap cq + k)) (writeHead cq) =
       writeHead cq # [ring_alloc (heap cq) ..< ring_alloc (heap cq) + nat k] @
         tl (ring_walk (ring_next (heap cq)) (nat (cap cq)) (writeHead cq)) \<and>
     (\<forall>a \<in> set (ring_slots cq). a < ring_alloc (heap cq)) \<and>
     (\<forall>a \<in> set [ring_alloc (heap cq) ..< ring_alloc (heap cq) + nat k].
         ring_Value (heap (grow k cq)) a = None) \<and>
     (\<forall>a < ring_alloc (heap cq). ring_Value (heap (grow k cq)) a = ring_Value (heap cq) a) \<and>
     (\<forall>a < ring_alloc (heap cq). a \<noteq> writeHead cq \<longrightarrow>
         ring_next (heap (grow k cq)) a = ring_next (heap cq) a) \<and>
     cap (grow k cq) = cap cq + k \<and>
     unread_slots (grow k cq) = unread_slots cq \<and>
     writeHead (grow k cq) = writeHead cq \<and>
     readHead (grow k cq) = readHead cq \<and>
     len (grow k cq) = len cq"
proof -
  assume "reachable cq" and k: "0 < k"
  then obtain us fs items where r: "cq_rep cq us fs items" using reachable_rep by blast
  let ?b = "ring_alloc (heap cq)" and ?w = "writeHead cq"
  let ?news = "[?b ..< ?b + nat k]"
  note g = grow_rep[OF r k]
  have rr: "ring_rep (heap cq) (readHead cq) ?w us fs items"
    and c: "nat (cap cq) = length us + 1 + length fs"
    using r by (simp_all add: cq_rep_def)
  have wg: "writeHead (grow k cq) = ?w" and rg: "readHead (grow k cq) = readHead cq"
    and lg: "len (grow k cq) = len cq" and cg: "cap (grow k cq) = cap cq + k"
    by (simp_all add: grow_eq[OF k])
  have rr': "ring_rep (heap (grow k cq)) (readHead cq) ?w us (?news @ fs) items"
    using g by (simp add: cq_rep_def wg rg)
  have c': "nat (cap cq + k) = length us + 1 + length (?news @ fs)"
    using c k by (simp add: nat_add_distrib)
  have old: "ring_walk (ring_next (heap cq)) (nat (cap cq)) ?w = ?w # fs @ us"
    unfolding c by (rule ring_rep_walk_from_writer[OF rr])
  have new: "ring_walk (ring_next (heap (grow k cq))) (nat (cap cq + k)) ?w =
               ?w # (?news @ fs) @ us"
    unfolding c' by (rule ring_rep_walk_from_writer[OF rr'])
  have 1: "ring_walk (ring_next (heap (grow k cq))) (nat (cap cq + k)) ?w =
       ?w # ?news @ tl (ring_walk (ring_next (heap cq)) (nat (cap cq)) ?w)"
    unfolding new old by simp
  have al: "\<forall>a \<in> set (us @ ?w # fs). a < ?b" using rr by (simp add: ring_rep_def)
  have 2: "\<forall>a \<in> set (ring_slots cq). a < ?b"
    unfolding rep_ring_slots(1)[OF r] by (rule al)
  have wb: "?w < ?b" using al by simp
  have h: "heap (grow k cq) =
      ring_Link ?w (fst (ring_New k (heap cq))) (snd (ring_New k (heap cq)))"
    by (simp add: grow_eq[OF k])
  note hf = grow_heap_fields[OF k wb, folded h]
  have 3: "\<forall>a \<in> set ?news. ring_Value (heap (grow k cq)) a = None"
    by (simp add: hf(2))
  have 4: "\<forall>a < ?b. ring_Value (heap (grow k cq)) a = ring_Value (heap cq) a"
    by (simp add: hf(2))
  have 5: "\<forall>a < ?b. a \<noteq> ?w \<longrightarrow> ring_next (heap (grow k cq)) a = ring_next (heap cq) a"
  proof (intro allI impI)
    fix a assume a: "a < ?b" "a \<noteq> ?w"
    have "Suc a \<noteq> ?b + nat k" using a(1) k by linarith
    then show "ring_next (heap (grow k cq)) a = ring_next (heap cq) a"
      using a by (simp add: hf(3))
  qed
  have 6: "unread_slots (grow k cq) = unread_slots cq"
    unfolding rep_ring_slots(2)[OF r] rep_ring_slots(2)[OF g] ..
  from 1 2 3 4 5 6 wg rg lg cg show ?thesis by blast
qed

theorem grow_splices_after_write_cursor_witness:
  "reachable (Enqueue [Some 10, Some 20, Some 30]
      \<lparr>writeHead = 0, readHead = 0, len = 0, cap = 2,
       heap = snd (ring_New 2 (empty_heap :: int ring_heap))\<rparr>) \<and> (0 :: int) < 3 \<and>
   ring_walk (ring_next (heap (grow 3 (Enqueue [Some 10, Some 20, Some 30]
      \<lparr>writeHead = 0, readHead = 0, len = 0, cap = 2,
       heap = snd (ring_New 2 (empty_heap :: int ring_heap))\<rparr>)))) 10 3 =
     [3, 7, 8, 9, 4, 5, 6, 0, 1, 2] \<and>
   unread_slots (grow 3 (Enqueue [Some 10, Some 20, Some 30]
      \<lparr>writeHead = 0, readHead = 0, len = 0, cap = 2,
       heap = snd (ring_New 2 (empty_heap :: int ring_heap))\<rparr>)) = [0, 1, 2]"
proof -
  let ?init = "\<lparr>writeHead = 0, readHead = 0, len = 0, cap = 2,
                heap = snd (ring_New 2 (empty_heap :: int ring_heap))\<rparr>"
  let ?st = "Enqueue [Some 10, Some 20, Some 30] ?init"
  have n: "New 2 = Some ?init" by (rule New_Some) simp
  have r: "reachable ?st"
    by (rule reachable_Enqueue[OF reachable_New[OF n]])
  have e: "writeHead ?st = 3" "cap ?st = 7" "ring_alloc (heap ?st) = 7"
    "ring_walk (ring_next (heap ?st)) 7 3 = [3, 4, 5, 6, 0, 1, 2]"
    "unread_slots ?st = [0, 1, 2]"
    by (simp_all add: ring_New_def empty_heap_def Enqueue_def enqueue_item_def grow_def
        ring_Link_def Let_def writeItem_def moveWriterHeadForward_def getWriterHead_def
        getReaderHead_def unread_slots_def ring_slots_def eval_nat_numeral)
  from grow_splices_after_write_cursor[OF r, of 3]
  have t: "ring_walk (ring_next (heap (grow 3 ?st))) (nat (cap ?st + 3)) (writeHead ?st) =
       writeHead ?st # [ring_alloc (heap ?st) ..< ring_alloc (heap ?st) + nat 3] @
         tl (ring_walk (ring_next (heap ?st)) (nat (cap ?st)) (writeHead ?st))"
    and u: "unread_slots (grow 3 ?st) = unread_slots ?st"
    by simp_all
  have a: "nat (7 + 3) = 10" "nat (7 :: int) = 7" "[7 ..< 7 + nat 3] = [7, 8, 9]"
    by (simp_all add: upt_rec)
  show ?thesis using r t u unfolding e a by simp
qed

lemma rep_ring_closed:
  assumes "cq_rep cq us fs items"
  shows "distinct (ring_slots cq)" "ring_next (heap cq) (last (ring_slots cq)) = readHead cq"
proof -
  from assms have r: "ring_rep (heap cq) (readHead cq) (writeHead cq) us fs items"
    by (simp add: cq_rep_def)
  show "distinct (ring_slots cq)"
    unfolding rep_ring_slots(1)[OF assms] using r by (simp add: ring_rep_def)
  have "last (ring_slots cq) = last (writeHead cq # fs)"
    unfolding rep_ring_slots(1)[OF assms] by simp
  then show "ring_next (heap cq) (last (ring_slots cq)) = readHead cq"
    using ring_rep_walk(2)[OF r] by simp
qed

lemma enqueue_item_cap:
  assumes "cq_rep cq us fs items"
  shows "cap (enqueue_item es x cq) =
           (if fs = [] then 2 * cap cq + int (length es) else cap cq)"
proof (cases "fs = []")
  case True
  then have full: "ring_next (heap cq) (writeHead cq) = readHead cq"
    using rep_full_iff[OF assms] by simp
  have k: "0 < cap cq + int (length es)" using rep_cap_pos[OF assms] by simp
  show ?thesis
    unfolding enqueue_item_full[OF full] using True
    by (simp add: moveWriterHeadForward_def writeItem_def grow_eq[OF k])
next
  case False
  then have free: "ring_next (heap cq) (writeHead cq) \<noteq> readHead cq"
    using rep_full_iff[OF assms] by simp
  show ?thesis
    unfolding enqueue_item_free[OF free] using False
    by (simp add: moveWriterHeadForward_def writeItem_def)
qed


section \<open>The blocking queue\<close>

lemma rb_New_Some:
  assumes "0 < n"
  shows "rb_New n = Some \<lparr>rb_writeHead = 0, rb_readHead = 0, rb_heap = snd (ring_New n empty_heap)\<rparr>"
  using assms by (simp add: rb_New_def ring_New_def Let_def empty_heap_def)

lemmas rb_eval =
  ring_New_def empty_heap_def rb_full_def rb_write_def rb_read_def
  rb_moveWriterHeadForward_def rb_moveReaderHeadForward_def rb_getWriterHead_def
  rb_getReaderHead_def rb_unread_slots_def Read_def Let_def

text \<open>
  C2, as stated, fails: with capacity 4 and no reader, the fourth item already finds the
  cell after the write cursor to be the read cursor, and the writer stops in the receive.
\<close>

theorem fourth_write_suspends_counterexample:
  "map_sum id fst
     (WriteOrWait [Some (0, 1), Some (0, 2), Some (0, 3), Some (0, 4 :: int)] (the (rb_New 4))) =
     Inr (AtReceive (Some (0, 4)) []) \<and>
   map_sum id fst
     (WriteOrWait [Some (0, 1), Some (0, 2), Some (0, 3), Some (0, 4 :: int)] (the (rb_New 4))) \<noteq>
     Inr Idle"
  by (simp add: rb_New_def rb_eval)

text \<open>
  C2, amended. For a blocking queue constructed with capacity 4 and no reader at work,
  \<^verbatim>\<open>WriteOrWait\<close> returns for up to three items, none of them \<^verbatim>\<open>nil\<close>, without reaching
  the receive, and the write of a fourth item suspends, with the three items stored and in
  order.
\<close>

theorem capacity_four_holds_three:
  "rb_New 4 = Some rb \<Longrightarrow> a \<noteq> None \<Longrightarrow> b \<noteq> None \<Longrightarrow> c \<noteq> None \<Longrightarrow>
     map_sum id fst (WriteOrWait [] rb) = Inr Idle \<and>
     map_sum id fst (WriteOrWait [a] rb) = Inr Idle \<and>
     map_sum id fst (WriteOrWait [a, b] rb) = Inr Idle \<and>
     map_sum id fst (WriteOrWait [a, b, c] rb) = Inr Idle \<and>
     map_sum id fst (WriteOrWait (a # b # c # d # rest) rb) = Inr (AtReceive d rest) \<and>
     map_sum id snd (WriteOrWait (a # b # c # d # rest) rb) =
       map_sum id snd (WriteOrWait [a, b, c] rb) \<and>
     (\<exists>rb'. WriteOrWait [a, b, c] rb = Inr (Idle, rb') \<and>
        map (ring_Value (rb_heap rb')) (rb_unread_slots 4 rb') = [a, b, c])"
proof -
  assume "rb_New 4 = Some rb" and "a \<noteq> None" "b \<noteq> None" "c \<noteq> None"
  then obtain ta va tb vb tc vc where
    rb: "rb = \<lparr>rb_writeHead = 0, rb_readHead = 0, rb_heap = snd (ring_New 4 empty_heap)\<rparr>"
    and i: "a = Some (ta, va)" "b = Some (tb, vb)" "c = Some (tc, vc)"
    using rb_New_Some[of 4, where 'a = 'a] by auto
  show ?thesis unfolding rb i by (simp add: rb_eval eval_nat_numeral)
qed

theorem capacity_four_holds_three_witness:
  "rb_New 4 = Some \<lparr>rb_writeHead = 0, rb_readHead = 0,
                      rb_heap = snd (ring_New 4 (empty_heap :: (nat \<times> int) ring_heap))\<rparr> \<and>
   Some (0 :: nat, 10 :: int) \<noteq> None \<and> Some (0 :: nat, 20 :: int) \<noteq> None \<and>
   Some (0 :: nat, 30 :: int) \<noteq> None \<and>
   map_sum id fst (WriteOrWait [Some (0, 10), Some (0, 20), Some (0, 30)]
      \<lparr>rb_writeHead = 0, rb_readHead = 0,
       rb_heap = snd (ring_New 4 (empty_heap :: (nat \<times> int) ring_heap))\<rparr>) = Inr Idle \<and>
   map_sum id fst (WriteOrWait [Some (0, 10), Some (0, 20), Some (0, 30), Some (0, 40), None]
      \<lparr>rb_writeHead = 0, rb_readHead = 0,
       rb_heap = snd (ring_New 4 (empty_heap :: (nat \<times> int) ring_heap))\<rparr>) =
     Inr (AtReceive (Some (0, 40)) [None])"
proof -
  let ?init = "\<lparr>rb_writeHead = 0, rb_readHead = 0,
                 rb_heap = snd (ring_New 4 (empty_heap :: (nat \<times> int) ring_heap))\<rparr>"
  have n: "rb_New 4 = Some ?init" by (rule rb_New_Some) simp
  from capacity_four_holds_three[OF n, of "Some (0, 10)" "Some (0, 20)" "Some (0, 30)"
      "Some (0, 40)" "[None]"] n
  show ?thesis by simp
qed

text \<open>
  C7. On an empty queue, where the read cursor equals the write cursor, \<^verbatim>\<open>Dequeue\<close> of
  the growing variant and \<^verbatim>\<open>Read\<close> of the blocking variant with a positive count return
  an empty result at once, without a panic, and leave the queue as it was.
\<close>

theorem empty_read_returns_nothing:
  "0 < n \<Longrightarrow>
     (readHead cq = writeHead cq \<longrightarrow> Dequeue n cq = Inr ([], cq)) \<and>
     (rb_readHead rb = rb_writeHead rb \<longrightarrow> Read n rb = Inr ([], rb))"
  by (cases "nat n")
    (auto simp: Dequeue_def Read_def getReaderHead_def getWriterHead_def
      rb_getReaderHead_def rb_getWriterHead_def)

theorem empty_read_returns_nothing_witness:
  "(0 :: int) < 3 \<and>
   readHead \<lparr>writeHead = 0, readHead = 0, len = 0, cap = 2,
             heap = snd (ring_New 2 (empty_heap :: int ring_heap))\<rparr> =
   writeHead \<lparr>writeHead = 0, readHead = 0, len = 0, cap = 2,
              heap = snd (ring_New 2 (empty_heap :: int ring_heap))\<rparr> \<and>
   Dequeue 3 \<lparr>writeHead = 0, readHead = 0, len = 0, cap = 2,
              heap = snd (ring_New 2 (empty_heap :: int ring_heap))\<rparr> =
     Inr ([], \<lparr>writeHead = 0, readHead = 0, len = 0, cap = 2,
              heap = snd (ring_New 2 (empty_heap :: int ring_heap))\<rparr>) \<and>
   rb_readHead \<lparr>rb_writeHead = 0, rb_readHead = 0,
                rb_heap = snd (ring_New 2 (empty_heap :: (nat \<times> int) ring_heap))\<rparr> =
   rb_writeHead \<lparr>rb_writeHead = 0, rb_readHead = 0,
                 rb_heap = snd (ring_New 2 (empty_heap :: (nat \<times> int) ring_heap))\<rparr> \<and>
   Read 3 \<lparr>rb_writeHead = 0, rb_readHead = 0,
           rb_heap = snd (ring_New 2 (empty_heap :: (nat \<times> int) ring_heap))\<rparr> =
     Inr ([], \<lparr>rb_writeHead = 0, rb_readHead = 0,
              rb_heap = snd (ring_New 2 (empty_heap :: (nat \<times> int) ring_heap))\<rparr>)"
  using empty_read_returns_nothing[of 3
      "\<lparr>writeHead = 0, readHead = 0, len = 0, cap = 2,
        heap = snd (ring_New 2 (empty_heap :: int ring_heap))\<rparr>"
      "\<lparr>rb_writeHead = 0, rb_readHead = 0,
        rb_heap = snd (ring_New 2 (empty_heap :: (nat \<times> int) ring_heap))\<rparr>"]
  by simp


lemma fresh_heap_Value:
  "0 < n \<Longrightarrow> ring_Value (snd (ring_New n (empty_heap :: 'v ring_heap))) a = None"
  by (simp add: ring_New_def Let_def empty_heap_def)

text \<open>
  C8. In both variants construction with a capacity that is not positive fails:
  \<^verbatim>\<open>New\<close> returns \<^verbatim>\<open>nil\<close>. With a positive capacity \<open>n\<close> it yields an empty queue: both
  cursors are at the same cell of a ring of \<open>n\<close> distinct cells, closed into a cycle, none
  of which holds a value.
\<close>

theorem construction_checks_capacity:
  "(n \<le> 0 \<longrightarrow> (New n :: 'a cirque option) = None \<and> (rb_New n :: 'a ringbuffer option) = None) \<and>
   (0 < n \<longrightarrow>
      (\<exists>cq :: 'a cirque. New n = Some cq \<and>
          readHead cq = writeHead cq \<and> len cq = 0 \<and> cap cq = n \<and> unread_slots cq = [] \<and>
          length (ring_slots cq) = nat n \<and> distinct (ring_slots cq) \<and>
          ring_next (heap cq) (last (ring_slots cq)) = readHead cq \<and>
          (\<forall>a. ring_Value (heap cq) a = None)) \<and>
      (\<exists>rb :: 'a ringbuffer. rb_New n = Some rb \<and>
          rb_readHead rb = rb_writeHead rb \<and> rb_unread_slots n rb = [] \<and>
          length (ring_walk (ring_next (rb_heap rb)) (nat n) (rb_readHead rb)) = nat n \<and>
          distinct (ring_walk (ring_next (rb_heap rb)) (nat n) (rb_readHead rb)) \<and>
          ring_next (rb_heap rb)
            (last (ring_walk (ring_next (rb_heap rb)) (nat n) (rb_readHead rb))) = rb_readHead rb \<and>
          (\<forall>a. ring_Value (rb_heap rb) a = None)))"
proof (intro conjI impI)
  assume "n \<le> 0"
  then show "(New n :: 'a cirque option) = None" "(rb_New n :: 'a ringbuffer option) = None"
    by (simp_all add: New_def rb_New_def)
next
  assume n: "0 < n"
  let ?cq = "\<lparr>writeHead = 0, readHead = 0, len = 0, cap = n,
               heap = snd (ring_New n (empty_heap :: 'a ring_heap))\<rparr>"
  have new: "New n = Some ?cq" by (rule New_Some[OF n])
  note rep = New_rep[OF new]
  have rr: "ring_rep (heap ?cq) (readHead ?cq) (writeHead ?cq) [] [1 ..< nat n] ([] :: 'a option list)"
    using rep by (simp add: cq_rep_def)
  have s: "ring_slots ?cq = writeHead ?cq # [1 ..< nat n]"
    using rep_ring_slots(1)[OF rep] by simp
  have "distinct (ring_slots ?cq)" unfolding s using rr by (simp add: ring_rep_def)
  moreover have "ring_next (heap ?cq) (last (ring_slots ?cq)) = readHead ?cq"
    unfolding s by (rule ring_rep_walk(2)[OF rr])
  moreover have "length (ring_slots ?cq) = nat n" unfolding s using n by simp
  moreover have "unread_slots ?cq = []" using rep_ring_slots(2)[OF rep] .
  moreover have "\<forall>a. ring_Value (heap ?cq) a = None" by (simp add: fresh_heap_Value[OF n])
  ultimately show "\<exists>cq :: 'a cirque. New n = Some cq \<and>
          readHead cq = writeHead cq \<and> len cq = 0 \<and> cap cq = n \<and> unread_slots cq = [] \<and>
          length (ring_slots cq) = nat n \<and> distinct (ring_slots cq) \<and>
          ring_next (heap cq) (last (ring_slots cq)) = readHead cq \<and>
          (\<forall>a. ring_Value (heap cq) a = None)"
    using new by (intro exI[of _ ?cq]) simp
next
  assume n: "0 < n"
  let ?rb = "\<lparr>rb_writeHead = 0, rb_readHead = 0,
               rb_heap = snd (ring_New n (empty_heap :: (nat \<times> 'a) ring_heap))\<rparr>"
  have new: "rb_New n = Some ?rb" by (rule rb_New_Some[OF n])
  have rr: "ring_rep (rb_heap ?rb) (rb_readHead ?rb) (rb_writeHead ?rb) [] [1 ..< nat n]
              ([] :: (nat \<times> 'a) option list)"
    using ring_New_rep[OF n, where 'v = "nat \<times> 'a"] by simp
  have c: "nat n = length ([] :: nat list) + 1 + length [1 ..< nat n]"
    using n by simp
  have s: "ring_walk (ring_next (rb_heap ?rb)) (nat n) (rb_readHead ?rb) =
             rb_writeHead ?rb # [1 ..< nat n]"
    using ring_rep_walk(1)[OF rr, folded c] by simp
  have "distinct (ring_walk (ring_next (rb_heap ?rb)) (nat n) (rb_readHead ?rb))"
    unfolding s using rr by (simp add: ring_rep_def)
  moreover have "ring_next (rb_heap ?rb)
      (last (ring_walk (ring_next (rb_heap ?rb)) (nat n) (rb_readHead ?rb))) = rb_readHead ?rb"
    unfolding s by (rule ring_rep_walk(2)[OF rr])
  moreover have "length (ring_walk (ring_next (rb_heap ?rb)) (nat n) (rb_readHead ?rb)) = nat n"
    unfolding s using n by simp
  moreover have "rb_unread_slots n ?rb = []" unfolding rb_unread_slots_def s by simp
  moreover have "\<forall>a. ring_Value (rb_heap ?rb) a = None" by (simp add: fresh_heap_Value[OF n])
  ultimately show "\<exists>rb :: 'a ringbuffer. rb_New n = Some rb \<and>
          rb_readHead rb = rb_writeHead rb \<and> rb_unread_slots n rb = [] \<and>
          length (ring_walk (ring_next (rb_heap rb)) (nat n) (rb_readHead rb)) = nat n \<and>
          distinct (ring_walk (ring_next (rb_heap rb)) (nat n) (rb_readHead rb)) \<and>
          ring_next (rb_heap rb)
            (last (ring_walk (ring_next (rb_heap rb)) (nat n) (rb_readHead rb))) = rb_readHead rb \<and>
          (\<forall>a. ring_Value (rb_heap rb) a = None)"
    using new by (intro exI[of _ ?rb]) simp
qed

theorem construction_checks_capacity_witness:
  "(New 0 :: int cirque option) = None \<and> (rb_New (- 1) :: int ringbuffer option) = None \<and>
   (\<exists>cq :: int cirque. New 3 = Some cq \<and> readHead cq = writeHead cq \<and> len cq = 0 \<and>
       cap cq = 3 \<and> length (ring_slots cq) = 3 \<and> distinct (ring_slots cq)) \<and>
   (\<exists>rb :: int ringbuffer. rb_New 3 = Some rb \<and> rb_readHead rb = rb_writeHead rb \<and>
       distinct (ring_walk (ring_next (rb_heap rb)) 3 (rb_readHead rb)))"
proof -
  note a = construction_checks_capacity[where 'a = int, of 0, THEN conjunct1, rule_format]
  note b = construction_checks_capacity[where 'a = int, of "- 1", THEN conjunct1, rule_format]
  note c = construction_checks_capacity[where 'a = int, of 3, THEN conjunct2, rule_format]
  have "(New 0 :: int cirque option) = None" using a by simp
  moreover have "(rb_New (- 1) :: int ringbuffer option) = None" using b by simp
  moreover have "\<exists>cq :: int cirque. New 3 = Some cq \<and> readHead cq = writeHead cq \<and> len cq = 0 \<and>
       cap cq = 3 \<and> length (ring_slots cq) = 3 \<and> distinct (ring_slots cq)"
    using c by fastforce
  moreover have "\<exists>rb :: int ringbuffer. rb_New 3 = Some rb \<and> rb_readHead rb = rb_writeHead rb \<and>
       distinct (ring_walk (ring_next (rb_heap rb)) 3 (rb_readHead rb))"
    using c by fastforce
  ultimately show ?thesis by blast
qed

text \<open>
  C9. Invalid arguments are not errors and change nothing: \<^verbatim>\<open>Dequeue\<close> and \<^verbatim>\<open>Read\<close> with
  a count that is not positive return an empty result and the queue as it was, and
  \<^verbatim>\<open>grow\<close> with an amount that is not positive leaves the ring, both cursors, the capacity
  counter and the length counter as they were.
\<close>

theorem invalid_arguments_change_nothing:
  "(n \<le> 0 \<longrightarrow> Dequeue n cq = Inr ([], cq) \<and> Read n rb = Inr ([], rb)) \<and>
   (k \<le> 0 \<longrightarrow> grow k cq = cq)"
  by (simp add: Dequeue_def Read_def grow_def ring_New_def ring_Link_def)

theorem invalid_arguments_change_nothing_witness:
  "Dequeue (- 1) (Enqueue [Some 10, Some 20 :: int option] (the (New 2))) =
     Inr ([], Enqueue [Some 10, Some 20] (the (New 2))) \<and>
   Read 0 (rb_moveWriterHeadForward (the (rb_New 3 :: int ringbuffer option))) =
     Inr ([], rb_moveWriterHeadForward (the (rb_New 3))) \<and>
   grow 0 (Enqueue [Some 10, Some 20 :: int option] (the (New 2))) =
     Enqueue [Some 10, Some 20] (the (New 2)) \<and>
   grow (- 5) (Enqueue [Some 10, Some 20 :: int option] (the (New 2))) =
     Enqueue [Some 10, Some 20] (the (New 2))"
  using
    invalid_arguments_change_nothing[of "- 1" "Enqueue [Some 10, Some 20 :: int option] (the (New 2))"
      "rb_moveWriterHeadForward (the (rb_New 3 :: int ringbuffer option))" 0]
    invalid_arguments_change_nothing[of 0 "Enqueue [Some 10, Some 20 :: int option] (the (New 2))"
      "rb_moveWriterHeadForward (the (rb_New 3 :: int ringbuffer option))" "- 5"]
  by simp


text \<open>
  In every state of the growing queue that sequential use reaches, the ring keeps one cell
  free: the unread cells number \<open>len\<close>, at most \<open>cap - 1\<close> of the \<open>cap\<close> cells of the ring;
  the test of \<^verbatim>\<open>Enqueue\<close> holds exactly when \<open>len = cap - 1\<close>, and an iteration in a call
  with \<open>b\<close> arguments then raises the capacity from \<open>c\<close> to \<open>2c + b\<close> and otherwise leaves it.
\<close>

lemma cirque_keeps_one_cell_free:
  assumes "reachable cq"
  shows "distinct (ring_slots cq)"
    and "ring_next (heap cq) (last (ring_slots cq)) = readHead cq"
    and "int (length (unread_slots cq)) = len cq"
    and "len cq \<le> cap cq - 1"
    and "(ring_next (heap cq) (getWriterHead cq) = getReaderHead cq) = (len cq = cap cq - 1)"
    and "cap (enqueue_item elements item cq) =
           (if len cq = cap cq - 1 then 2 * cap cq + int (length elements) else cap cq)"
proof -
  from assms obtain us fs items where r: "cq_rep cq us fs items" using reachable_rep by blast
  note s = rep_ring_slots[OF r]
  have l: "len cq = int (length us)" "cap cq = int (length us + 1 + length fs)"
    using r rep_lengths[OF r] by (simp_all add: cq_rep_def)
  have f: "(fs = []) = (len cq = cap cq - 1)" unfolding l by auto
  show "distinct (ring_slots cq)" by (rule rep_ring_closed(1)[OF r])
  show "ring_next (heap cq) (last (ring_slots cq)) = readHead cq"
    by (rule rep_ring_closed(2)[OF r])
  show "int (length (unread_slots cq)) = len cq" unfolding s l ..
  show "len cq \<le> cap cq - 1" unfolding l by simp
  show "(ring_next (heap cq) (getWriterHead cq) = getReaderHead cq) = (len cq = cap cq - 1)"
    unfolding getWriterHead_def getReaderHead_def rep_full_iff[OF r] by (rule f)
  show "cap (enqueue_item elements item cq) =
          (if len cq = cap cq - 1 then 2 * cap cq + int (length elements) else cap cq)"
    unfolding enqueue_item_cap[OF r] f by simp
qed

lemmas sys_eval =
  sys_New_def rb_New_def schedule_to_wake_def schedule_after_wake_def

text \<open>
  C6. The code breaks the claim: \<^verbatim>\<open>WriteOrWait\<close> guards the receive with \<^verbatim>\<open>if\<close>, so a
  woken writer goes to \<^verbatim>\<open>rb.write(item)\<close> without looking at the cursors again, and the
  signal cannot be trusted, because \<^verbatim>\<open>moveReaderHeadForward\<close> sends it after the store of
  the read cursor, in a statement of its own, while the writer runs without a lock. In the
  schedule \<open>schedule_to_wake\<close> of a queue of capacity 2 the send of \<^verbatim>\<open>Read(1)\<close> arrives
  after the writer has refilled the ring: the writer is woken for item 3 with the cell
  after the write cursor being the read cursor, and its next step stores item 3.
\<close>

theorem woken_writer_stores_in_full_ring:
  "sys_run schedule_to_wake (the (sys_New 2)) \<noteq> Inl Panic \<and>
   sys_writer (projr (sys_run schedule_to_wake (the (sys_New 2)))) = AtWrite (Some (0, 3)) [] \<and>
   rb_full (sys_rb (projr (sys_run schedule_to_wake (the (sys_New 2))))) \<and>
   ring_Value (rb_heap (sys_rb (projr (sys_run schedule_to_wake (the (sys_New 2))))))
     (rb_writeHead (sys_rb (projr (sys_run schedule_to_wake (the (sys_New 2)))))) = Some (0, 1) \<and>
   sys_writer (projr (sys_run (schedule_to_wake @ [WriterStep]) (the (sys_New 2)))) = AtMove [] \<and>
   ring_Value (rb_heap (sys_rb (projr (sys_run (schedule_to_wake @ [WriterStep]) (the (sys_New 2))))))
     (rb_writeHead (sys_rb (projr (sys_run schedule_to_wake (the (sys_New 2)))))) = Some (0, 3)"
  by (simp add: sys_eval rb_eval)

text \<open>
  C10. The code breaks the claim in the blocking variant, by the defect of C6. After the
  schedule \<open>schedule_to_wake\<close> followed by \<open>schedule_after_wake\<close>, the ring of capacity 2
  (the cells 0 and 1) holds two items that were written and that no \<^verbatim>\<open>Read\<close> has returned,
  3 and 2, one more than capacity - 1; the cursors are equal, so the \<^verbatim>\<open>Read(10)\<close> that
  ends the schedule returns nothing. The reads have returned item 1 and an empty slice.
\<close>

theorem blocking_ring_holds_two_of_two:
  "sys_run (schedule_to_wake @ schedule_after_wake) (the (sys_New 2)) \<noteq> Inl Panic \<and>
   sys_writer (projr (sys_run (schedule_to_wake @ schedule_after_wake) (the (sys_New 2)))) = Idle \<and>
   sys_reader (projr (sys_run (schedule_to_wake @ schedule_after_wake) (the (sys_New 2)))) =
     ReaderIdle \<and>
   sys_returned (projr (sys_run (schedule_to_wake @ schedule_after_wake) (the (sys_New 2)))) =
     [[Some (0, 1)], []] \<and>
   ring_walk (ring_next (rb_heap (sys_rb
       (projr (sys_run (schedule_to_wake @ schedule_after_wake) (the (sys_New 2))))))) 2 0 = [0, 1] \<and>
   map (ring_Value (rb_heap (sys_rb
       (projr (sys_run (schedule_to_wake @ schedule_after_wake) (the (sys_New 2))))))) [0, 1] =
     [Some (0, 3), Some (0, 2)] \<and>
   rb_readHead (sys_rb (projr (sys_run (schedule_to_wake @ schedule_after_wake) (the (sys_New 2))))) =
     rb_writeHead (sys_rb (projr (sys_run (schedule_to_wake @ schedule_after_wake) (the (sys_New 2)))))"
  by (simp add: sys_eval rb_eval eval_nat_numeral)

end
